theory Spec2Isabelle
  imports Main "HOL-Library.AList"
begin

section \<open>The editor-side sync controller of Corpus\<close>

text \<open>
  This theory embeds \<^verbatim>\<open>extension/src/ui/sync_controller.js\<close>: the closure created
  by \<^verbatim>\<open>createSyncController\<close> (draft store, status, timers, flags) and the module
  functions below it (storage access, normalisation, pruning, merging).

  The controller is asynchronous. Its suspension points are the calls of the injected
  \<^verbatim>\<open>sendCommand\<close> and the storage calls. The embedding is a state-passing big-step
  semantics:
  \<^item> the closure variables and the collaborators the controller talks to (storage area,
    callbacks, the remote command channel) are the fields of one record, \<open>controller\<close>;
    the callbacks \<^verbatim>\<open>onStatus\<close>, \<^verbatim>\<open>onState\<close>, \<^verbatim>\<open>onError\<close> and \<^verbatim>\<open>sendCommand\<close> are
    modelled by the logs of their calls (\<open>statusLog\<close>, \<open>stateLog\<close>, \<open>errorLog\<close>,
    \<open>sent\<close>), and \<open>resolvedLog\<close> lists the commands whose promise has resolved;
  \<^item> every \<^verbatim>\<open>sendCommand\<close> call consumes one \<open>reply\<close> of a script: the events that
    reach the controller while the call is in flight (edits, reentrant flush calls,
    absorbed envelopes, the persist timer, destroy), then the outcome of the call;
    a script that runs out leaves the call pending, which is the value \<open>None\<close>;
  \<^item> a storage call is one atomic step that succeeds or rejects;
  \<^item> a thrown exception is the \<open>Inl\<close> of a sum.
  Payloads are values of a type variable \<open>'d\<close>; \<^verbatim>\<open>deepClone\<close> is the identity on them.
  Timestamps are integers, supplied with each edit as the value \<^verbatim>\<open>nowMs()\<close> returns.
  The draft map is a list of key-value pairs in insertion order, as
  \<^verbatim>\<open>Object.values\<close> enumerates the string keys of a JavaScript object (entity
  identifiers have the shape \<^verbatim>\<open>type_...\<close>, never that of an array index).
\<close>

subsection \<open>Data\<close>

datatype syncStatus = Saved | Pending | Saving | Error

record 'd draft =
  cvTypeId :: string
  data :: 'd
  localUpdatedAtMs :: int
  baseRemoteUpdatedAt :: string
  dirty :: bool

type_synonym 'd draftMap = "(string \<times> 'd draft) list"

text \<open>An entity of the remote envelope; of its fields the controller reads \<^verbatim>\<open>id\<close>
  and writes \<^verbatim>\<open>data\<close>.\<close>

record 'd cvType =
  typeId :: string
  typeData :: 'd

text \<open>The remote state envelope. \<open>cvTypes = None\<close> stands for an envelope whose
  \<^verbatim>\<open>cvTypes\<close> is not an array.\<close>

record 'd remoteState =
  updatedAt :: string
  cvTypes :: "'d cvType list option"

text \<open>The storage area: the values under \<^verbatim>\<open>LOCAL_DRAFTS_KEY\<close> and
  \<^verbatim>\<open>SYNC_META_KEY\<close> (its \<^verbatim>\<open>status\<close>; the \<^verbatim>\<open>updatedAtMs\<close> beside it is not
  modelled), and whether its \<^verbatim>\<open>get\<close> and \<^verbatim>\<open>set\<close> reject.\<close>

record 'd storage =
  storedDrafts :: "'d draftMap option"
  storedStatus :: "syncStatus option"
  getFails :: bool
  setFails :: bool

datatype 'd command =
  CV_UPDATE_TYPE string 'd string
  | STATE_LOAD

datatype failure =
  CommandError string
  | StorageError

datatype 'd outcome =
  Resolved "'d remoteState option"
  | Rejected string

datatype 'd event =
  Edit string 'd string int
  | FlushCall string
  | Absorb "'d remoteState option"
  | PersistTimer
  | Destroy

record 'd reply =
  during :: "'d event list"
  outcome :: "'d outcome"

datatype flushResult = FlushResult (ok: bool) (reason: "string option") (resultStatus: syncStatus)

record 'd controller =
  drafts :: "'d draftMap"
  status :: syncStatus
  idleTimer :: bool
  localPersistTimer :: bool
  flushing :: bool
  needsTrailingFlush :: bool
  destroyed :: bool
  storageArea :: "'d storage option"
  dateNow :: int
  statusLog :: "syncStatus list"
  stateLog :: "('d remoteState \<times> string \<times> string) list"
  errorLog :: "failure list"
  sent :: "'d command list"
  resolvedLog :: "'d command list"

subsection \<open>Module functions\<close>

text \<open>\<^verbatim>\<open>normalizeDraftMap\<close>: entries with an empty key or without the dirty flag are
  skipped; a timestamp that is falsy (zero) is replaced by \<^verbatim>\<open>Date.now()\<close>.\<close>

definition normalizeEntry :: "int \<Rightarrow> string \<Rightarrow> 'd draft \<Rightarrow> 'd draft" where
  "normalizeEntry dn k v =
     \<lparr>cvTypeId = k, data = data v,
      localUpdatedAtMs = (if localUpdatedAtMs v = 0 then dn else localUpdatedAtMs v),
      baseRemoteUpdatedAt = baseRemoteUpdatedAt v, dirty = True\<rparr>"

fun normalizeInto :: "int \<Rightarrow> 'd draftMap \<Rightarrow> 'd draftMap \<Rightarrow> 'd draftMap" where
  "normalizeInto dn [] out = out"
| "normalizeInto dn ((k, v) # rest) out =
     (if k = [] \<or> \<not> dirty v then normalizeInto dn rest out
      else normalizeInto dn rest (AList.update k (normalizeEntry dn k v) out))"

definition normalizeDraftMap :: "int \<Rightarrow> 'd draftMap option \<Rightarrow> 'd draftMap" where
  "normalizeDraftMap dn candidate =
     (case candidate of None \<Rightarrow> [] | Some raw \<Rightarrow> normalizeInto dn raw [])"

definition pruneDraftsAgainstRemote ::
  "'d draftMap \<Rightarrow> 'd remoteState option \<Rightarrow> 'd draftMap" where
  "pruneDraftsAgainstRemote draftMap remote =
     (case remote of
        None \<Rightarrow> draftMap
      | Some rs \<Rightarrow>
          (case cvTypes rs of
             None \<Rightarrow> draftMap
           | Some ts \<Rightarrow> filter (\<lambda>(k, v). k \<in> set (map typeId ts)) draftMap))"

definition applyDraftsToRemoteState ::
  "'d remoteState option \<Rightarrow> 'd draftMap \<Rightarrow> 'd remoteState option" where
  "applyDraftsToRemoteState remote draftMap =
     (case remote of
        None \<Rightarrow> None
      | Some rs \<Rightarrow>
          Some (case cvTypes rs of
                  None \<Rightarrow> rs
                | Some ts \<Rightarrow>
                    rs\<lparr>cvTypes := Some (map (\<lambda>ty. case map_of draftMap (typeId ty) of
                                                    None \<Rightarrow> ty
                                                  | Some d \<Rightarrow> ty\<lparr>typeData := data d\<rparr>) ts)\<rparr>))"

definition loadDraftsFromStorage :: "'d controller \<Rightarrow> 'd draftMap" where
  "loadDraftsFromStorage c =
     (case storageArea c of
        None \<Rightarrow> []
      | Some st \<Rightarrow> if getFails st then [] else normalizeDraftMap (dateNow c) (storedDrafts st))"

definition persistDrafts :: "'d controller \<Rightarrow> failure + 'd controller" where
  "persistDrafts c =
     (case storageArea c of
        None \<Rightarrow> Inr c
      | Some st \<Rightarrow>
          if setFails st then Inl StorageError
          else Inr (c\<lparr>storageArea := Some (st\<lparr>
                 storedDrafts := Some (normalizeDraftMap (dateNow c) (Some (drafts c))),
                 storedStatus := Some (status c)\<rparr>)\<rparr>))"

subsection \<open>The controller\<close>

definition createSyncController :: "'d storage option \<Rightarrow> int \<Rightarrow> 'd controller" where
  "createSyncController st dn =
     \<lparr>drafts = [], status = Saved, idleTimer = False, localPersistTimer = False,
      flushing = False, needsTrailingFlush = False, destroyed = False,
      storageArea = st, dateNow = dn,
      statusLog = [], stateLog = [], errorLog = [], sent = [], resolvedLog = []\<rparr>"

definition setStatus :: "syncStatus \<Rightarrow> 'd controller \<Rightarrow> 'd controller" where
  "setStatus nextStatus c =
     (if status c = nextStatus then c
      else c\<lparr>status := nextStatus, statusLog := statusLog c @ [nextStatus]\<rparr>)"

definition hasPendingDrafts :: "'d controller \<Rightarrow> bool" where
  "hasPendingDrafts c = (drafts c \<noteq> [])"

definition clearIdleTimer :: "'d controller \<Rightarrow> 'd controller" where
  "clearIdleTimer c = (if idleTimer c then c\<lparr>idleTimer := False\<rparr> else c)"

definition clearLocalPersistTimer :: "'d controller \<Rightarrow> 'd controller" where
  "clearLocalPersistTimer c = (if localPersistTimer c then c\<lparr>localPersistTimer := False\<rparr> else c)"

definition scheduleIdleFlush :: "'d controller \<Rightarrow> 'd controller" where
  "scheduleIdleFlush c = (clearIdleTimer c)\<lparr>idleTimer := True\<rparr>"

definition scheduleLocalPersist :: "'d controller \<Rightarrow> 'd controller" where
  "scheduleLocalPersist c = (clearLocalPersistTimer c)\<lparr>localPersistTimer := True\<rparr>"

text \<open>\<^verbatim>\<open>scheduleTypeSave(cvTypeId, data, baseRemoteUpdatedAt)\<close>; \<open>now\<close> is the value
  that \<^verbatim>\<open>nowMs()\<close> returns in this call.\<close>

definition scheduleTypeSave ::
  "string \<Rightarrow> 'd \<Rightarrow> string \<Rightarrow> int \<Rightarrow> 'd controller \<Rightarrow> 'd controller" where
  "scheduleTypeSave tid d base now c =
     (if tid = [] then c
      else
        let c1 = c\<lparr>drafts := AList.update tid
                      \<lparr>cvTypeId = tid, data = d, localUpdatedAtMs = now,
                       baseRemoteUpdatedAt = base, dirty = True\<rparr> (drafts c)\<rparr>;
            c2 = setStatus Pending c1;
            c3 = scheduleLocalPersist c2;
            c4 = scheduleIdleFlush c3
        in if flushing c4 then c4\<lparr>needsTrailingFlush := True\<rparr> else c4)"

definition absorbRemoteState :: "'d remoteState option \<Rightarrow> 'd controller \<Rightarrow> 'd controller" where
  "absorbRemoteState remote c =
     (let c1 = c\<lparr>drafts := pruneDraftsAgainstRemote (drafts c) remote\<rparr>
      in if \<not> hasPendingDrafts c1 \<and> \<not> flushing c1 then setStatus Saved c1 else c1)"

definition destroy :: "'d controller \<Rightarrow> 'd controller" where
  "destroy c = clearLocalPersistTimer (clearIdleTimer (c\<lparr>destroyed := True\<rparr>))"

text \<open>\<^verbatim>\<open>restoreDrafts(remoteState)\<close>: the result is the merged envelope, or the
  rejection of the closing storage write.\<close>

definition restoreDrafts ::
  "'d remoteState option \<Rightarrow> 'd controller \<Rightarrow> (failure + 'd remoteState option) \<times> 'd controller" where
  "restoreDrafts remote c =
     (let c1 = c\<lparr>drafts := pruneDraftsAgainstRemote (loadDraftsFromStorage c) remote\<rparr>;
          merged = applyDraftsToRemoteState remote (drafts c1);
          c2 = (if hasPendingDrafts c1 then scheduleIdleFlush (setStatus Pending c1)
                else setStatus Saved c1)
      in case persistDrafts c2 of
           Inl f \<Rightarrow> (Inl f, c2)
         | Inr c3 \<Rightarrow> (Inr merged, c3))"

subsection \<open>Events that arrive while a command is in flight\<close>

text \<open>
  An edit is a call of \<^verbatim>\<open>scheduleTypeSave\<close>, \<open>Absorb\<close> a call of
  \<^verbatim>\<open>absorbRemoteState\<close> by the host, \<open>PersistTimer\<close> the callback of the persist
  timer, \<open>Destroy\<close> a call of \<^verbatim>\<open>destroy\<close>. \<open>FlushCall\<close> is a call of \<^verbatim>\<open>flush\<close>
  (by the host, the lifecycle trigger or the idle timer) that runs to its end while the
  command is in flight: it returns at once on a destroyed controller, clears the idle
  timer, writes the drafts to storage (a rejection ends that call) and enters
  \<^verbatim>\<open>performFlush\<close>, which finds \<^verbatim>\<open>flushing\<close> set and raises the trailing flag.
\<close>

definition deliver :: "'d event \<Rightarrow> 'd controller \<Rightarrow> 'd controller" where
  "deliver ev c =
     (case ev of
        Edit tid d base now \<Rightarrow> scheduleTypeSave tid d base now c
      | Absorb remote \<Rightarrow> absorbRemoteState remote c
      | PersistTimer \<Rightarrow> (case persistDrafts c of Inl f \<Rightarrow> c | Inr c1 \<Rightarrow> c1)
      | Destroy \<Rightarrow> destroy c
      | FlushCall r \<Rightarrow>
          if destroyed c then c
          else (case persistDrafts (clearIdleTimer c) of
                  Inl f \<Rightarrow> clearIdleTimer c
                | Inr c1 \<Rightarrow> if flushing c1 then c1\<lparr>needsTrailingFlush := True\<rparr> else c1))"

definition deliverAll :: "'d event list \<Rightarrow> 'd controller \<Rightarrow> 'd controller" where
  "deliverAll evs c = fold deliver evs c"

subsection \<open>The flush coordinator\<close>

text \<open>What follows a resolved write in \<^verbatim>\<open>syncEntry\<close>: the removal of the draft
  unless a newer one took its place (lines 211 to 217), then the absorption of the
  returned envelope (lines 219 to 222).\<close>

definition removeIfNotNewer :: "'d draft \<Rightarrow> 'd controller \<Rightarrow> 'd controller" where
  "removeIfNotNewer entry c =
     (case map_of (drafts c) (cvTypeId entry) of
        None \<Rightarrow> c\<lparr>drafts := AList.delete (cvTypeId entry) (drafts c)\<rparr>
      | Some latestDraft \<Rightarrow>
          if localUpdatedAtMs latestDraft \<le> localUpdatedAtMs entry
          then c\<lparr>drafts := AList.delete (cvTypeId entry) (drafts c)\<rparr>
          else c\<lparr>needsTrailingFlush := True\<rparr>)"

definition absorbResponse ::
  "'d draft \<Rightarrow> 'd remoteState option \<Rightarrow> 'd controller \<Rightarrow> 'd controller" where
  "absorbResponse entry response c =
     (case response of
        None \<Rightarrow> c
      | Some st \<Rightarrow>
          absorbRemoteState (Some st)
            (c\<lparr>stateLog := stateLog c @ [(st, ''sync'', cvTypeId entry)]\<rparr>))"

definition notifyReload ::
  "'d draft \<Rightarrow> 'd remoteState option \<Rightarrow> 'd controller \<Rightarrow> 'd controller" where
  "notifyReload entry reloaded c =
     (case reloaded of
        None \<Rightarrow> c
      | Some st \<Rightarrow> c\<lparr>stateLog := stateLog c @ [(st, ''conflict-reload'', cvTypeId entry)]\<rparr>)"

text \<open>One \<^verbatim>\<open>sendCommand\<close> call: the command is logged, the events of the reply are
  delivered, and the outcome is handed back; \<open>afterCall\<close> is the controller at the
  moment the promise settles.\<close>

definition afterCall :: "'d command \<Rightarrow> 'd reply \<Rightarrow> 'd controller \<Rightarrow> 'd controller" where
  "afterCall cmd r c =
     (let c1 = deliverAll (during r) (c\<lparr>sent := sent c @ [cmd]\<rparr>)
      in case outcome r of
           Resolved response \<Rightarrow> c1\<lparr>resolvedLog := resolvedLog c1 @ [cmd]\<rparr>
         | Rejected code \<Rightarrow> c1)"

definition sendCommand ::
  "'d command \<Rightarrow> 'd reply \<Rightarrow> 'd controller \<Rightarrow> 'd outcome \<times> 'd controller" where
  "sendCommand cmd r c = (outcome r, afterCall cmd r c)"

type_synonym 'd run = "((failure + unit) \<times> 'd controller \<times> 'd reply list) option"

fun syncEntry ::
  "'d draft \<Rightarrow> string \<Rightarrow> bool \<Rightarrow> 'd controller \<Rightarrow> 'd reply list \<Rightarrow> 'd run" where
  "syncEntry entry rsn recoveredConflict c [] = None"
| "syncEntry entry rsn recoveredConflict c (r # rs) =
     (case sendCommand (CV_UPDATE_TYPE (cvTypeId entry) (data entry) rsn) r c of
        (Resolved response, c1) \<Rightarrow>
          Some (Inr (), absorbResponse entry response (removeIfNotNewer entry c1), rs)
      | (Rejected code, c1) \<Rightarrow>
          if code = ''STATE_CONFLICT'' \<and> \<not> recoveredConflict then
            (case rs of
               [] \<Rightarrow> None
             | r2 # rs2 \<Rightarrow>
                 (case sendCommand STATE_LOAD r2 c1 of
                    (Resolved reloaded, c2) \<Rightarrow>
                      syncEntry entry rsn True (notifyReload entry reloaded c2) rs2
                  | (Rejected code2, c2) \<Rightarrow> Some (Inl (CommandError code2), c2, rs2)))
          else Some (Inl (CommandError code), c1, rs))"

fun syncEntries ::
  "'d draft list \<Rightarrow> string \<Rightarrow> 'd controller \<Rightarrow> 'd reply list \<Rightarrow> 'd run" where
  "syncEntries [] rsn c rs = Some (Inr (), c, rs)"
| "syncEntries (entry # entries) rsn c rs =
     (case syncEntry entry rsn False c rs of
        None \<Rightarrow> None
      | Some (Inl f, c1, rs1) \<Rightarrow> Some (Inl f, c1, rs1)
      | Some (Inr u, c1, rs1) \<Rightarrow> syncEntries entries rsn c1 rs1)"

definition syncDirtyDrafts :: "string \<Rightarrow> 'd controller \<Rightarrow> 'd reply list \<Rightarrow> 'd run" where
  "syncDirtyDrafts rsn c rs =
     syncEntries (sort_key localUpdatedAtMs (map snd (drafts c))) rsn c rs"

text \<open>Every entry sent consumes at least one reply, so the do-while loop of
  \<^verbatim>\<open>performFlush\<close>, which repeats only after a pass that raised the trailing flag,
  terminates on every script.\<close>

lemma syncEntry_consumes:
  "syncEntry entry rsn b c rs = Some (res, c', rs') \<Longrightarrow> length rs' < length rs"
proof (induction entry rsn b c rs rule: syncEntry.induct)
  case (1 entry rsn recoveredConflict c)
  then show ?case by simp
next
  case (2 entry rsn recoveredConflict c r rs)
  then show ?case
    by (simp add: sendCommand_def split: outcome.splits if_splits list.splits) force
qed

lemma syncEntries_consumes:
  "syncEntries entries rsn c rs = Some (res, c', rs') \<Longrightarrow>
     length rs' \<le> length rs \<and> (length rs' = length rs \<longrightarrow> c' = c)"
proof (induction entries arbitrary: c rs)
  case Nil
  then show ?case by simp
next
  case (Cons entry entries)
  show ?case
  proof (cases "syncEntry entry rsn False c rs")
    case None
    with Cons.prems show ?thesis by simp
  next
    case (Some t)
    obtain r1 c1 rs1 where t: "t = (r1, c1, rs1)" by (cases t) auto
    have less: "length rs1 < length rs" using Some t syncEntry_consumes by blast
    show ?thesis
    proof (cases r1)
      case (Inl f)
      with Some t Cons.prems less show ?thesis by auto
    next
      case (Inr u)
      with Some t Cons.prems have "syncEntries entries rsn c1 rs1 = Some (res, c', rs')"
        by simp
      from Cons.IH[OF this] less show ?thesis by auto
    qed
  qed
qed

function drainLoop :: "string \<Rightarrow> 'd controller \<Rightarrow> 'd reply list \<Rightarrow> 'd run" where
  "drainLoop rsn c rs =
     (case syncDirtyDrafts rsn (c\<lparr>needsTrailingFlush := False\<rparr>) rs of
        None \<Rightarrow> None
      | Some (Inl f, c1, rs1) \<Rightarrow> Some (Inl f, c1, rs1)
      | Some (Inr u, c1, rs1) \<Rightarrow>
          if needsTrailingFlush c1 then drainLoop rsn c1 rs1 else Some (Inr (), c1, rs1))"
  by pat_completeness auto
termination
proof (relation "measure (\<lambda>(rsn, c, rs). length rs)")
  show "wf (measure (\<lambda>(rsn, c, rs). length rs))" by simp
next
  fix rsn :: string and c :: "'d controller" and rs x2 x y xa ya xb c1 rs1
  assume run: "syncDirtyDrafts rsn (c\<lparr>needsTrailingFlush := False\<rparr>) rs = Some x2"
    and x2: "(x, y) = x2" and y: "(xa, ya) = y" and x: "x = Inr xb"
    and flag: "needsTrailingFlush xa"
  from run x2 y have "syncEntries (sort_key localUpdatedAtMs (map snd (drafts c))) rsn
      (c\<lparr>needsTrailingFlush := False\<rparr>) rs = Some (x, xa, ya)"
    by (simp add: syncDirtyDrafts_def)
  from syncEntries_consumes[OF this] flag have "length ya < length rs"
    by (cases "length ya = length rs") auto
  then show "((rsn, xa, ya), (rsn, c, rs)) \<in> measure (\<lambda>(rsn, c, rs). length rs)"
    by simp
qed

declare drainLoop.simps [simp del]

text \<open>\<^verbatim>\<open>performFlush(reason)\<close>. The \<^verbatim>\<open>catch\<close> swallows the failure of the drain
  after reporting it; the storage write of the \<^verbatim>\<open>finally\<close> block may reject.\<close>

definition performFlush :: "string \<Rightarrow> 'd controller \<Rightarrow> 'd reply list \<Rightarrow> 'd run" where
  "performFlush rsn c rs =
     (if flushing c then Some (Inr (), c\<lparr>needsTrailingFlush := True\<rparr>, rs)
      else if \<not> hasPendingDrafts c then
        Some (Inr (), (if status c \<noteq> Error then setStatus Saved c else c), rs)
      else
        (case drainLoop rsn (setStatus Saving (c\<lparr>flushing := True\<rparr>)) rs of
           None \<Rightarrow> None
         | Some (res, c2, rs2) \<Rightarrow>
             let c3 = (case res of
                         Inr u \<Rightarrow> if hasPendingDrafts c2 then setStatus Pending c2
                                  else setStatus Saved c2
                       | Inl f \<Rightarrow> (setStatus Error c2)\<lparr>errorLog := errorLog c2 @ [f]\<rparr>);
                 c4 = c3\<lparr>flushing := False\<rparr>
             in (case persistDrafts c4 of
                   Inl f \<Rightarrow> Some (Inl f, c4, rs2)
                 | Inr c5 \<Rightarrow> Some (Inr (), c5, rs2))))"

text \<open>\<^verbatim>\<open>flush(reason)\<close>: \<open>None\<close> while a command is pending, \<open>Inl\<close> when the promise
  rejects, \<open>Inr\<close> with the returned object otherwise.\<close>

definition flush ::
  "string \<Rightarrow> 'd controller \<Rightarrow> 'd reply list \<Rightarrow>
     ((failure + flushResult) \<times> 'd controller \<times> 'd reply list) option" where
  "flush rsn c rs =
     (if destroyed c then Some (Inr (FlushResult False (Some ''destroyed'') (status c)), c, rs)
      else
        (case persistDrafts (clearIdleTimer c) of
           Inl f \<Rightarrow> Some (Inl f, clearIdleTimer c, rs)
         | Inr c2 \<Rightarrow>
             (case performFlush rsn c2 rs of
                None \<Rightarrow> None
              | Some (Inl f, c3, rs3) \<Rightarrow> Some (Inl f, c3, rs3)
              | Some (Inr u, c3, rs3) \<Rightarrow>
                  Some (Inr (FlushResult (status c3 \<noteq> Error) None (status c3)), c3, rs3))))"

subsection \<open>Vocabulary of the statements\<close>







text \<open>The draft map as the controller holds it: one value for each key (it is a
  JavaScript object), and each value records the key it is stored under, which is not
  empty, and has the dirty flag.\<close>

definition wfEntry :: "string \<Rightarrow> 'd draft \<Rightarrow> bool" where
  "wfEntry k v = (cvTypeId v = k \<and> k \<noteq> [] \<and> dirty v)"

definition wfDrafts :: "'d draftMap \<Rightarrow> bool" where
  "wfDrafts ds = (distinct (map fst ds) \<and> (\<forall>(k, v) \<in> set ds. wfEntry k v))"




text \<open>The envelope of a response, if there is one with an entity list, lists the entity:
  absorbing it does not prune the entity's draft.\<close>

definition keeps :: "string \<Rightarrow> 'd remoteState option \<Rightarrow> bool" where
  "keeps tid response =
     (case response of
        None \<Rightarrow> True
      | Some st \<Rightarrow> (case cvTypes st of None \<Rightarrow> True | Some ts \<Rightarrow> tid \<in> set (map typeId ts)))"

text \<open>Example values: a controller holding one draft, and three replies without events.\<close>

definition exEntry :: "nat draft" where
  "exEntry = \<lparr>cvTypeId = ''type_1'', data = 7, localUpdatedAtMs = 1,
              baseRemoteUpdatedAt = ''remote_a'', dirty = True\<rparr>"

definition exController :: "nat controller" where
  "exController = scheduleTypeSave ''type_1'' 7 ''remote_a'' 1 (createSyncController None 0)"






text \<open>The two ends of a pass of \<^verbatim>\<open>flush\<close> on an idle controller: from the call to the
  first drain (idle timer cleared, drafts written to storage, \<^verbatim>\<open>flushing\<close> set, status
  \<open>Saving\<close>), and from the end of the drain loop to the storage write of the
  \<^verbatim>\<open>finally\<close> block.\<close>

definition beginPass :: "'d controller \<Rightarrow> 'd controller" where
  "beginPass c =
     setStatus Saving
       ((case persistDrafts (clearIdleTimer c) of Inl f \<Rightarrow> clearIdleTimer c | Inr c2 \<Rightarrow> c2)
          \<lparr>flushing := True\<rparr>)"

definition endPass :: "failure + unit \<Rightarrow> 'd controller \<Rightarrow> 'd controller" where
  "endPass res c =
     (case res of
        Inr u \<Rightarrow> if hasPendingDrafts c then setStatus Pending c else setStatus Saved c
      | Inl f \<Rightarrow> (setStatus Error c)\<lparr>errorLog := errorLog c @ [f]\<rparr>)\<lparr>flushing := False\<rparr>"

text \<open>More example values: a storage area holding two persisted drafts, and a remote
  envelope that lists the entity of the first one only.\<close>

definition exStored :: "nat storage" where
  "exStored =
     \<lparr>storedDrafts = Some [(''type_1'', exEntry),
                           (''type_2'', \<lparr>cvTypeId = ''type_2'', data = 8, localUpdatedAtMs = 2,
                                         baseRemoteUpdatedAt = ''remote_a'', dirty = True\<rparr>)],
      storedStatus = Some Error, getFails = False, setFails = False\<rparr>"

definition exRemote :: "nat remoteState" where
  "exRemote = \<lparr>updatedAt = ''remote_b'', cvTypes = Some [\<lparr>typeId = ''type_1'', typeData = 0\<rparr>]\<rparr>"

text \<open>
  The states of a controller: the one \<^verbatim>\<open>createSyncController\<close> returns, those in which
  a call of its interface returns, and those a flush passes through between its steps
  (the start of a pass, an event delivered while a command is in flight, an entry
  settled). The last three rules do not ask that a flush is running, so the predicate
  covers more states than a run can reach, which only strengthens an invariant.
\<close>

inductive reachable :: "'d controller \<Rightarrow> bool" where
  created: "reachable (createSyncController st dn)"
| scheduled: "reachable c \<Longrightarrow> reachable (scheduleTypeSave tid d base now c)"
| absorbed: "reachable c \<Longrightarrow> reachable (absorbRemoteState remote c)"
| restored: "reachable c \<Longrightarrow> reachable (snd (restoreDrafts remote c))"
| destroyed: "reachable c \<Longrightarrow> reachable (destroy c)"
| flushed: "reachable c \<Longrightarrow> flush rsn c rs = Some (res, c', rs') \<Longrightarrow> reachable c'"
| started: "reachable c \<Longrightarrow> reachable (beginPass c)"
| delivered: "reachable c \<Longrightarrow> reachable (deliver ev c)"
| settled: "reachable c \<Longrightarrow> syncEntry entry rsn b c rs = Some (res, c', rs') \<Longrightarrow> reachable c'"











section \<open>Properties\<close>

subsection \<open>Storage writes\<close>

lemma persistDrafts_fields:
  "persistDrafts c = Inr c' \<Longrightarrow>
     drafts c' = drafts c \<and> status c' = status c \<and> statusLog c' = statusLog c \<and>
     sent c' = sent c \<and> flushing c' = flushing c \<and> destroyed c' = destroyed c \<and>
     needsTrailingFlush c' = needsTrailingFlush c \<and> idleTimer c' = idleTimer c \<and>
     localPersistTimer c' = localPersistTimer c \<and> dateNow c' = dateNow c \<and>
     stateLog c' = stateLog c \<and> errorLog c' = errorLog c \<and>
     resolvedLog c' = resolvedLog c"
  by (auto simp: persistDrafts_def split: option.splits if_splits)



subsection \<open>Edits\<close>


lemma scheduleTypeSave_drafts:
  "drafts (scheduleTypeSave tid d base now c) =
     (if tid = [] then drafts c
      else AList.update tid \<lparr>cvTypeId = tid, data = d, localUpdatedAtMs = now,
                             baseRemoteUpdatedAt = base, dirty = True\<rparr> (drafts c))"
  by (simp add: scheduleTypeSave_def Let_def setStatus_def scheduleLocalPersist_def
      scheduleIdleFlush_def clearIdleTimer_def clearLocalPersistTimer_def)

lemma wfDrafts_update:
  "wfDrafts ds \<Longrightarrow> wfEntry k v \<Longrightarrow> wfDrafts (AList.update k v ds)"
proof -
  assume wf: "wfDrafts ds" and k: "wfEntry k v"
  have sub: "set (AList.update k v ds) \<subseteq> insert (k, v) (set ds)"
    by (induction ds) auto
  have "\<forall>(k', v') \<in> set (AList.update k v ds). wfEntry k' v'"
  proof (clarify)
    fix a b assume "(a, b) \<in> set (AList.update k v ds)"
    with sub have "(a, b) = (k, v) \<or> (a, b) \<in> set ds" by blast
    with wf k show "wfEntry a b" unfolding wfDrafts_def by blast
  qed
  with wf show ?thesis by (simp add: wfDrafts_def distinct_update)
qed

lemma wfDrafts_scheduleTypeSave:
  "wfDrafts (drafts c) \<Longrightarrow> wfDrafts (drafts (scheduleTypeSave tid d base now c))"
  by (simp add: scheduleTypeSave_drafts wfDrafts_update wfEntry_def)







subsection \<open>What the steps of a flush leave unchanged\<close>

lemma setStatus_frame [simp]:
  "drafts (setStatus s c) = drafts c" "flushing (setStatus s c) = flushing c"
  "destroyed (setStatus s c) = destroyed c" "sent (setStatus s c) = sent c"
  "errorLog (setStatus s c) = errorLog c" "stateLog (setStatus s c) = stateLog c"
  "storageArea (setStatus s c) = storageArea c" "dateNow (setStatus s c) = dateNow c"
  "needsTrailingFlush (setStatus s c) = needsTrailingFlush c"
  "idleTimer (setStatus s c) = idleTimer c"
  "localPersistTimer (setStatus s c) = localPersistTimer c"
  "resolvedLog (setStatus s c) = resolvedLog c"
  "status (setStatus s c) = s"
  by (simp_all add: setStatus_def)


lemma destroy_frame:
  "flushing (destroy c) = flushing c" "sent (destroy c) = sent c"
  "errorLog (destroy c) = errorLog c" "drafts (destroy c) = drafts c"
  "status (destroy c) = status c" "destroyed (destroy c)"
  by (simp_all add: destroy_def clearIdleTimer_def clearLocalPersistTimer_def)





lemma notifyReload_frame:
  "flushing (notifyReload e reloaded c) = flushing c"
  "sent (notifyReload e reloaded c) = sent c"
  "errorLog (notifyReload e reloaded c) = errorLog c"
  "destroyed (notifyReload e reloaded c) = destroyed c"
  "drafts (notifyReload e reloaded c) = drafts c"
  "status (notifyReload e reloaded c) = status c"
  "statusLog (notifyReload e reloaded c) = statusLog c"
  "storageArea (notifyReload e reloaded c) = storageArea c"
  "needsTrailingFlush (notifyReload e reloaded c) = needsTrailingFlush c"
  by (simp_all add: notifyReload_def split: option.splits)





subsection \<open>Drains on quiet scripts\<close>


lemma delete_subset: "set (AList.delete k ds) \<subseteq> set ds"
  by (auto simp: AList.delete_eq)





subsection \<open>The status after a flush\<close>



subsection \<open>Evaluation of concrete runs\<close>


subsection \<open>Resolved writes\<close>

lemma map_of_filter_key:
  "map_of (filter (\<lambda>(k, v). P k) ds) k = (if P k then map_of ds k else None)"
  by (induction ds) auto

lemma map_of_prune:
  "map_of (pruneDraftsAgainstRemote ds response) k =
     (if keeps k response then map_of ds k else None)"
  by (simp add: pruneDraftsAgainstRemote_def keeps_def map_of_filter_key split: option.splits)

lemma absorbResponse_drafts:
  "drafts (absorbResponse e response c) = pruneDraftsAgainstRemote (drafts c) response"
  by (simp add: absorbResponse_def absorbRemoteState_def Let_def pruneDraftsAgainstRemote_def
      split: option.splits)


subsection \<open>The two ends of a pass\<close>




subsection \<open>Conflict recovery\<close>








lemma prune_Nil [simp]: "pruneDraftsAgainstRemote [] remote = []"
  by (simp add: pruneDraftsAgainstRemote_def split: option.splits)




subsection \<open>Normalisation, pruning and merging\<close>

lemma update_fresh: "k \<notin> fst ` set al \<Longrightarrow> AList.update k v al = al @ [(k, v)]"
  by (induction al) auto

lemma normalizeInto_distinct:
  "distinct (map fst raw) \<Longrightarrow> fst ` set raw \<inter> fst ` set out = {} \<Longrightarrow>
     normalizeInto dn raw out =
       out @ map (\<lambda>(k, v). (k, normalizeEntry dn k v))
               (filter (\<lambda>(k, v). k \<noteq> [] \<and> dirty v) raw)"
proof (induction raw arbitrary: out)
  case Nil
  then show ?case by simp
next
  case (Cons p raw)
  obtain k v where p: "p = (k, v)" by (cases p) auto
  from Cons.prems p have fresh: "k \<notin> fst ` set out" and d: "distinct (map fst raw)"
    and k: "k \<notin> fst ` set raw" and disj: "fst ` set raw \<inter> fst ` set out = {}"
    by auto
  show ?case
  proof (cases "k = [] \<or> \<not> dirty v")
    case True
    with Cons.IH[OF d disj] p show ?thesis by auto
  next
    case False
    have disj': "fst ` set raw \<inter> fst ` set (out @ [(k, normalizeEntry dn k v)]) = {}"
      using disj k by auto
    from Cons.IH[OF d disj'] False p show ?thesis by (simp add: update_fresh[OF fresh])
  qed
qed

lemma normalizeInto_keys_distinct:
  "distinct (map fst out) \<Longrightarrow> distinct (map fst (normalizeInto dn raw out))"
  by (induction dn raw out rule: normalizeInto.induct) (auto simp: distinct_update)

lemma normalizeInto_wf:
  "wfDrafts out \<Longrightarrow> wfDrafts (normalizeInto dn raw out)"
proof (induction dn raw out rule: normalizeInto.induct)
  case (1 dn out)
  then show ?case by simp
next
  case (2 dn k v rest out)
  show ?case
  proof (cases "k = [] \<or> \<not> dirty v")
    case True
    with 2 show ?thesis by simp
  next
    case False
    have "wfDrafts (AList.update k (normalizeEntry dn k v) out)"
      using False by (intro wfDrafts_update[OF "2.prems"]) (simp add: normalizeEntry_def wfEntry_def)
    with 2 False show ?thesis by simp
  qed
qed

lemma normalizeDraftMap_wf: "wfDrafts (normalizeDraftMap dn candidate)"
proof (cases candidate)
  case None
  then show ?thesis by (simp add: normalizeDraftMap_def wfDrafts_def)
next
  case (Some raw)
  have "wfDrafts ([] :: 'a draftMap)" by (simp add: wfDrafts_def)
  from normalizeInto_wf[OF this] Some show ?thesis by (simp add: normalizeDraftMap_def)
qed

lemma normalizeDraftMap_lookup:
  assumes "distinct (map fst raw)" "(k, v) \<in> set raw" "k \<noteq> []" "dirty v"
  shows "map_of (normalizeDraftMap dn (Some raw)) k = Some (normalizeEntry dn k v)"
proof -
  have n: "normalizeDraftMap dn (Some raw) =
      map (\<lambda>(k, v). (k, normalizeEntry dn k v)) (filter (\<lambda>(k, v). k \<noteq> [] \<and> dirty v) raw)"
    using normalizeInto_distinct[OF assms(1), of "[]" dn] by (simp add: normalizeDraftMap_def)
  have d: "distinct (map fst (normalizeDraftMap dn (Some raw)))"
    using normalizeDraftMap_wf[of dn "Some raw"] by (simp add: wfDrafts_def)
  have "(k, normalizeEntry dn k v) \<in> set (normalizeDraftMap dn (Some raw))"
    unfolding n using assms(2,3,4) by force
  with d show ?thesis by simp
qed

lemma prune_wf: "wfDrafts ds \<Longrightarrow> wfDrafts (pruneDraftsAgainstRemote ds remote)"
  by (auto simp: pruneDraftsAgainstRemote_def wfDrafts_def distinct_map_filter split: option.splits)

lemma applyDrafts_types:
  "cvTypes remote = Some ts \<Longrightarrow>
     \<exists>merged ts'. applyDraftsToRemoteState (Some remote) ds = Some merged \<and>
       cvTypes merged = Some ts' \<and> map typeId ts' = map typeId ts \<and>
       updatedAt merged = updatedAt remote \<and>
       (\<forall>ty \<in> set ts'. \<forall>d. map_of ds (typeId ty) = Some d \<longrightarrow> typeData ty = data d)"
  by (auto simp: applyDraftsToRemoteState_def comp_def split: option.splits)

subsection \<open>The draft store stays well formed\<close>

lemma wfDrafts_delete: "wfDrafts ds \<Longrightarrow> wfDrafts (AList.delete k ds)"
  unfolding wfDrafts_def using delete_subset[of k ds] by (auto simp: distinct_delete)

lemma wf_persistDrafts: "persistDrafts c = Inr c' \<Longrightarrow> wfDrafts (drafts c) \<Longrightarrow> wfDrafts (drafts c')"
  using persistDrafts_fields by fastforce

lemma wf_absorbRemoteState:
  "wfDrafts (drafts c) \<Longrightarrow> wfDrafts (drafts (absorbRemoteState remote c))"
  by (simp add: absorbRemoteState_def Let_def prune_wf)

lemma wf_restoreDrafts: "wfDrafts (drafts (snd (restoreDrafts remote c)))"
proof -
  let ?c1 = "c\<lparr>drafts := pruneDraftsAgainstRemote (loadDraftsFromStorage c) remote\<rparr>"
  let ?c2 = "if hasPendingDrafts ?c1 then scheduleIdleFlush (setStatus Pending ?c1)
             else setStatus Saved ?c1"
  have "wfDrafts ([] :: 'a draftMap)" by (simp add: wfDrafts_def)
  then have "wfDrafts (loadDraftsFromStorage c)"
    by (simp add: loadDraftsFromStorage_def normalizeDraftMap_wf split: option.splits)
  then have w2: "wfDrafts (drafts ?c2)"
    by (simp add: prune_wf scheduleIdleFlush_def clearIdleTimer_def)
  show ?thesis
  proof (cases "persistDrafts ?c2")
    case (Inl f)
    with w2 show ?thesis by (simp add: restoreDrafts_def Let_def)
  next
    case (Inr c3)
    from wf_persistDrafts[OF Inr w2] Inr show ?thesis by (simp add: restoreDrafts_def Let_def)
  qed
qed

lemma wf_deliver: "wfDrafts (drafts c) \<Longrightarrow> wfDrafts (drafts (deliver ev c))"
proof (cases ev)
  case (Edit tid d base now)
  then show "wfDrafts (drafts c) \<Longrightarrow> ?thesis" by (simp add: deliver_def wfDrafts_scheduleTypeSave)
next
  case (FlushCall r)
  assume w: "wfDrafts (drafts c)"
  show ?thesis
  proof (cases "persistDrafts (clearIdleTimer c)")
    case (Inl f)
    with FlushCall w show ?thesis by (simp add: deliver_def clearIdleTimer_def)
  next
    case (Inr c1)
    from persistDrafts_fields[OF Inr] FlushCall Inr w show ?thesis
      by (simp add: deliver_def clearIdleTimer_def)
  qed
next
  case (Absorb remote)
  then show "wfDrafts (drafts c) \<Longrightarrow> ?thesis" by (simp add: deliver_def wf_absorbRemoteState)
next
  case PersistTimer
  assume w: "wfDrafts (drafts c)"
  show ?thesis
  proof (cases "persistDrafts c")
    case (Inl f)
    with PersistTimer w show ?thesis by (simp add: deliver_def)
  next
    case (Inr c1)
    from persistDrafts_fields[OF Inr] PersistTimer Inr w show ?thesis by (simp add: deliver_def)
  qed
next
  case Destroy
  then show "wfDrafts (drafts c) \<Longrightarrow> ?thesis" by (simp add: deliver_def destroy_frame)
qed

lemma wf_deliverAll: "wfDrafts (drafts c) \<Longrightarrow> wfDrafts (drafts (deliverAll evs c))"
proof (induction evs arbitrary: c)
  case Nil
  then show ?case by (simp add: deliverAll_def)
next
  case (Cons ev evs)
  have "deliverAll (ev # evs) c = deliverAll evs (deliver ev c)" by (simp add: deliverAll_def)
  with Cons.IH[OF wf_deliver[OF Cons.prems]] show ?case by simp
qed

lemma wf_afterCall: "wfDrafts (drafts c) \<Longrightarrow> wfDrafts (drafts (afterCall cmd r c))"
  using wf_deliverAll[of "c\<lparr>sent := sent c @ [cmd]\<rparr>" "during r"]
  by (simp add: afterCall_def Let_def split: outcome.splits)

lemma wf_removeIfNotNewer:
  "wfDrafts (drafts c) \<Longrightarrow> wfDrafts (drafts (removeIfNotNewer e c))"
  by (simp add: removeIfNotNewer_def wfDrafts_delete split: option.splits)

lemma wf_absorbResponse:
  "wfDrafts (drafts c) \<Longrightarrow> wfDrafts (drafts (absorbResponse e response c))"
  by (simp add: absorbResponse_drafts prune_wf)

lemma wf_syncEntry:
  "syncEntry e rsn b c rs = Some (res, c', rs') \<Longrightarrow> wfDrafts (drafts c) \<Longrightarrow>
     wfDrafts (drafts c')"
proof (induction e rsn b c rs rule: syncEntry.induct)
  case (1 entry rsn recoveredConflict c)
  then show ?case by simp
next
  case (2 entry rsn recoveredConflict c r rs)
  let ?W = "CV_UPDATE_TYPE (cvTypeId entry) (data entry) rsn"
  let ?c1 = "afterCall ?W r c"
  have s1: "sendCommand ?W r c = (outcome r, ?c1)" by (simp add: sendCommand_def)
  have w1: "wfDrafts (drafts ?c1)" by (rule wf_afterCall[OF "2.prems"(2)])
  show ?case
  proof (cases "outcome r")
    case (Resolved response)
    with "2.prems"(1) s1 have "c' = absorbResponse entry response (removeIfNotNewer entry ?c1)"
      by auto
    with w1 show ?thesis by (simp add: wf_absorbResponse wf_removeIfNotNewer)
  next
    case (Rejected code)
    show ?thesis
    proof (cases "code = ''STATE_CONFLICT'' \<and> \<not> recoveredConflict")
      case False
      with Rejected "2.prems"(1) s1 have "c' = ?c1" by auto
      with w1 show ?thesis by simp
    next
      case True
      show ?thesis
      proof (cases rs)
        case Nil
        with True Rejected "2.prems"(1) s1 show ?thesis by simp
      next
        case (Cons r2 rs2)
        let ?c2 = "afterCall STATE_LOAD r2 ?c1"
        have s2: "sendCommand STATE_LOAD r2 ?c1 = (outcome r2, ?c2)" by (simp add: sendCommand_def)
        have w2: "wfDrafts (drafts ?c2)" by (rule wf_afterCall[OF w1])
        show ?thesis
        proof (cases "outcome r2")
          case (Resolved reloaded)
          have run: "syncEntry entry rsn True (notifyReload entry reloaded ?c2) rs2 = Some (res, c', rs')"
            using "2.prems"(1) s1 s2 Rejected True Cons Resolved by simp
          have w3: "wfDrafts (drafts (notifyReload entry reloaded ?c2))"
            using w2 by (simp add: notifyReload_frame)
          from "2.IH"[OF s1[symmetric] Rejected True Cons s2[symmetric] Resolved run w3]
          show ?thesis .
        next
          case Rejected2: (Rejected code2)
          with True Rejected Cons "2.prems"(1) s1 s2 have "c' = ?c2" by auto
          with w2 show ?thesis by simp
        qed
      qed
    qed
  qed
qed

lemma wf_syncEntries:
  "syncEntries es rsn c rs = Some (res, c', rs') \<Longrightarrow> wfDrafts (drafts c) \<Longrightarrow>
     wfDrafts (drafts c')"
proof (induction es arbitrary: c rs)
  case Nil
  then show ?case by simp
next
  case (Cons e es)
  show ?case
  proof (cases "syncEntry e rsn False c rs")
    case None
    with Cons.prems show ?thesis by simp
  next
    case (Some t)
    obtain r1 c1 rs1 where t: "t = (r1, c1, rs1)" by (cases t) auto
    note w = wf_syncEntry[OF Some[unfolded t] Cons.prems(2)]
    show ?thesis
    proof (cases r1)
      case (Inl f')
      with Some t Cons.prems w show ?thesis by auto
    next
      case (Inr u)
      with Some t Cons.prems have "syncEntries es rsn c1 rs1 = Some (res, c', rs')" by simp
      from Cons.IH[OF this w] show ?thesis .
    qed
  qed
qed

lemma wf_drainLoop:
  "drainLoop rsn c rs = Some (res, c', rs') \<Longrightarrow> wfDrafts (drafts c) \<Longrightarrow>
     wfDrafts (drafts c')"
proof (induction rsn c rs rule: drainLoop.induct)
  case (1 rsn c rs)
  let ?c0 = "c\<lparr>needsTrailingFlush := False\<rparr>"
  have w0: "wfDrafts (drafts ?c0)" using "1.prems"(2) by simp
  show ?case
  proof (cases "syncDirtyDrafts rsn ?c0 rs")
    case None
    with "1.prems"(1) show ?thesis by (subst (asm) drainLoop.simps) simp
  next
    case (Some t)
    obtain r1 c1 rs1 where t: "t = (r1, c1, rs1)" by (cases t) auto
    have w1: "wfDrafts (drafts c1)"
      using wf_syncEntries[OF Some[unfolded t syncDirtyDrafts_def] w0] .
    show ?thesis
    proof (cases r1)
      case (Inl f')
      with Some t "1.prems"(1) w1 show ?thesis by (subst (asm) drainLoop.simps) auto
    next
      case (Inr u)
      show ?thesis
      proof (cases "needsTrailingFlush c1")
        case True
        have "drainLoop rsn c1 rs1 = Some (res, c', rs')"
          using "1.prems"(1) Some t Inr True by (subst (asm) drainLoop.simps) simp
        from "1.IH"[OF Some t[symmetric] Inr refl True this w1] show ?thesis .
      next
        case False
        with Some t Inr "1.prems"(1) w1 show ?thesis by (subst (asm) drainLoop.simps) auto
      qed
    qed
  qed
qed

lemma wf_performFlush:
  assumes "performFlush rsn c rs = Some (res, c', rs')" "wfDrafts (drafts c)"
  shows "wfDrafts (drafts c')"
proof (cases "flushing c \<or> \<not> hasPendingDrafts c")
  case True
  with assms show ?thesis by (auto simp: performFlush_def split: if_splits)
next
  case False
  let ?c1 = "setStatus Saving (c\<lparr>flushing := True\<rparr>)"
  have w1: "wfDrafts (drafts ?c1)" using assms(2) by simp
  show ?thesis
  proof (cases "drainLoop rsn ?c1 rs")
    case None
    with False assms(1) show ?thesis by (simp add: performFlush_def)
  next
    case (Some t)
    obtain r1 c2 rs2 where t: "t = (r1, c2, rs2)" by (cases t) auto
    note w2 = wf_drainLoop[OF Some[unfolded t] w1]
    have w3: "wfDrafts (drafts (endPass r1 c2))"
      using w2 by (cases r1) (simp_all add: endPass_def)
    have "performFlush rsn c rs =
        (case persistDrafts (endPass r1 c2) of
           Inl f \<Rightarrow> Some (Inl f, endPass r1 c2, rs2) | Inr c5 \<Rightarrow> Some (Inr (), c5, rs2))"
      using False Some t
      by (cases r1; cases "persistDrafts (endPass r1 c2)")
         (simp_all add: performFlush_def endPass_def Let_def)
    with assms(1) w3 show ?thesis
      by (cases "persistDrafts (endPass r1 c2)") (auto dest: wf_persistDrafts)
  qed
qed

lemma wf_flush:
  assumes "flush rsn c rs = Some (res, c', rs')" "wfDrafts (drafts c)"
  shows "wfDrafts (drafts c')"
proof (cases "destroyed c")
  case True
  with assms show ?thesis by (simp add: flush_def)
next
  case False
  show ?thesis
  proof (cases "persistDrafts (clearIdleTimer c)")
    case (Inl f)
    with False assms show ?thesis by (auto simp: flush_def clearIdleTimer_def)
  next
    case (Inr c2)
    have w2: "wfDrafts (drafts c2)"
      using persistDrafts_fields[OF Inr] assms(2) by (simp add: clearIdleTimer_def)
    show ?thesis
    proof (cases "performFlush rsn c2 rs")
      case None
      with False Inr assms(1) show ?thesis by (simp add: flush_def)
    next
      case (Some t)
      obtain r1 c3 rs3 where t: "t = (r1, c3, rs3)" by (cases t) auto
      from wf_performFlush[OF Some[unfolded t] w2] have "wfDrafts (drafts c3)" .
      with False Inr Some t assms(1) show ?thesis by (cases r1) (auto simp: flush_def)
    qed
  qed
qed

lemma wf_beginPass: "wfDrafts (drafts c) \<Longrightarrow> wfDrafts (drafts (beginPass c))"
  by (cases "persistDrafts (clearIdleTimer c)")
     (auto simp: beginPass_def clearIdleTimer_def dest: persistDrafts_fields)

lemma reachable_wf: "reachable c \<Longrightarrow> wfDrafts (drafts c)"
proof (induction rule: reachable.induct)
  case (created st dn)
  show ?case by (simp add: createSyncController_def wfDrafts_def)
next
  case (scheduled c tid d base now)
  then show ?case by (simp add: wfDrafts_scheduleTypeSave)
next
  case (absorbed c remote)
  then show ?case by (simp add: wf_absorbRemoteState)
next
  case (restored c remote)
  show ?case by (rule wf_restoreDrafts)
next
  case (destroyed c)
  then show ?case by (simp add: destroy_frame)
next
  case (flushed c rsn rs res c' rs')
  then show ?case using wf_flush by blast
next
  case (started c)
  then show ?case by (simp add: wf_beginPass)
next
  case (delivered c ev)
  then show ?case by (simp add: wf_deliver)
next
  case (settled c entry rsn b rs res c' rs')
  then show ?case using wf_syncEntry by blast
qed

subsection \<open>Drains on quiet scripts with failures\<close>














subsection \<open>Requests that arrive in flight\<close>











section \<open>The claims\<close>

subsection \<open>Flush after destroy\<close>

text \<open>
  Claim C10. Once \<^verbatim>\<open>destroy()\<close> has set the \<open>destroyed\<close> flag (which nothing
  clears), every call of \<^verbatim>\<open>flush\<close> returns
  \<^verbatim>\<open>{ok: false, reason: 'destroyed', status}\<close> at once: the controller is left exactly as
  it was (no command is logged, the storage area, the draft store and the status are the
  same) and no reply of the script is consumed.
\<close>

theorem flush_after_destroy:
  assumes "destroyed c"
  shows "flush rsn c rs = Some (Inr (FlushResult False (Some ''destroyed'') (status c)), c, rs)"
  using assms by (simp add: flush_def)

theorem flush_after_destroy_witness:
  "destroyed (destroy (createSyncController None 0 :: nat controller)) \<and>
   flush ''manual'' (destroy (createSyncController None 0 :: nat controller)) [] =
     Some (Inr (FlushResult False (Some ''destroyed'') Saved),
           destroy (createSyncController None 0), [])"
proof -
  have d: "destroyed (destroy (createSyncController None 0 :: nat controller))"
    by (simp add: destroy_def createSyncController_def clearIdleTimer_def
        clearLocalPersistTimer_def)
  have s: "status (destroy (createSyncController None 0 :: nat controller)) = Saved"
    by (simp add: destroy_def createSyncController_def clearIdleTimer_def
        clearLocalPersistTimer_def)
  show ?thesis using d s flush_after_destroy[OF d, of "''manual''" "[]"] by simp
qed

subsection \<open>Flush of an empty draft store\<close>

text \<open>
  Claim C6. A flush that starts with an empty draft store returns without sending a
  command (the command log and the script are untouched) and leaves the draft store
  empty. The status and the status callback log are unchanged, except that a status
  other than \<open>Saved\<close> and \<open>Error\<close> may become \<open>Saved\<close>: the status never moves away
  from \<open>Saved\<close> or \<open>Error\<close>.
\<close>

theorem flush_empty_noop:
  assumes "drafts c = []"
  shows "\<exists>res c'. flush rsn c rs = Some (res, c', rs) \<and> sent c' = sent c \<and> drafts c' = [] \<and>
           (status c' = status c \<and> statusLog c' = statusLog c \<or>
            status c' = Saved \<and> status c \<noteq> Saved \<and> status c \<noteq> Error)"
proof (cases "destroyed c")
  case True
  then show ?thesis using assms by (simp add: flush_def)
next
  case False
  show ?thesis
  proof (cases "persistDrafts (clearIdleTimer c)")
    case (Inl f)
    with False assms show ?thesis by (simp add: flush_def clearIdleTimer_def)
  next
    case (Inr c2)
    have f: "drafts c2 = drafts c" "status c2 = status c" "statusLog c2 = statusLog c"
      "sent c2 = sent c"
      using persistDrafts_fields[OF Inr] by (simp_all add: clearIdleTimer_def)
    from f assms have e: "\<not> hasPendingDrafts c2" by (simp add: hasPendingDrafts_def)
    show ?thesis
    proof (cases "flushing c2")
      case True
      with False Inr f assms show ?thesis by (simp add: flush_def performFlush_def)
    next
      case nf: False
      with False Inr f assms e show ?thesis
        by (cases "status c") (simp_all add: flush_def performFlush_def setStatus_def)
    qed
  qed
qed

theorem flush_empty_noop_witness:
  "drafts (createSyncController None 0 :: nat controller) = [] \<and>
   (\<exists>res c'. flush ''manual'' (createSyncController None 0 :: nat controller) [] =
        Some (res, c', []) \<and>
      sent c' = [] \<and> drafts c' = [] \<and> status c' = Saved \<and> statusLog c' = [])"
proof -
  have d: "drafts (createSyncController None 0 :: nat controller) = []"
    by (simp add: createSyncController_def)
  show ?thesis
    using d flush_empty_noop[OF d, of "''manual''" "[]"]
    by (auto simp: createSyncController_def)
qed

subsection \<open>Coalescing\<close>



subsection \<open>The status sequence\<close>



subsection \<open>Removal of a written draft\<close>



subsection \<open>Bounded conflict retry\<close>



subsection \<open>Restoring persisted drafts\<close>

text \<open>
  Claim C9. Let the storage area work and hold a persisted draft set (distinct keys, each
  entry with a key and the dirty flag, as \<^verbatim>\<open>persistDrafts\<close> writes it), and let the
  remote envelope have an entity list. For every persisted draft: if the envelope lists
  its entity, \<^verbatim>\<open>restoreDrafts\<close> returns a merged envelope with the same entities in
  which every entity of that identifier carries the payload of the draft, the draft is in
  the store with that payload, and the status is \<open>Pending\<close>; if the envelope does not
  list the entity, the store holds no draft for it afterwards.
\<close>

theorem restore_merges_and_prunes:
  assumes st: "storageArea c = Some st" "\<not> getFails st" "\<not> setFails st"
    and raw: "storedDrafts st = Some raw" "distinct (map fst raw)"
      "\<forall>(k, v) \<in> set raw. k \<noteq> [] \<and> dirty v"
    and remote: "cvTypes remote = Some ts"
    and kv: "(k, v) \<in> set raw"
  shows "\<exists>merged c'. restoreDrafts (Some remote) c = (Inr (Some merged), c') \<and>
     (if k \<in> typeId ` set ts
      then status c' = Pending \<and>
           (\<exists>d. map_of (drafts c') k = Some d \<and> data d = data v) \<and>
           (\<exists>ts'. cvTypes merged = Some ts' \<and> map typeId ts' = map typeId ts \<and>
                  (\<forall>ty \<in> set ts'. typeId ty = k \<longrightarrow> typeData ty = data v))
      else k \<notin> fst ` set (drafts c'))"
proof -
  let ?loaded = "normalizeDraftMap (dateNow c) (Some raw)"
  let ?ds = "pruneDraftsAgainstRemote ?loaded (Some remote)"
  let ?c1 = "c\<lparr>drafts := ?ds\<rparr>"
  let ?c2 = "if hasPendingDrafts ?c1 then scheduleIdleFlush (setStatus Pending ?c1)
             else setStatus Saved ?c1"
  from kv raw(3) have kd: "k \<noteq> []" "dirty v" by auto
  have load: "loadDraftsFromStorage c = ?loaded"
    using st raw(1) by (simp add: loadDraftsFromStorage_def)
  have look: "map_of ?loaded k = Some (normalizeEntry (dateNow c) k v)"
    by (rule normalizeDraftMap_lookup[OF raw(2) kv kd])
  have keep: "keeps k (Some remote) = (k \<in> typeId ` set ts)"
    using remote by (simp add: keeps_def)
  have m: "map_of ?ds k = (if k \<in> typeId ` set ts then Some (normalizeEntry (dateNow c) k v) else None)"
    by (simp add: map_of_prune keep look)
  from applyDrafts_types[OF remote, of ?ds] obtain merged ts' where
    mg: "applyDraftsToRemoteState (Some remote) ?ds = Some merged" "cvTypes merged = Some ts'"
      "map typeId ts' = map typeId ts"
      "\<forall>ty \<in> set ts'. \<forall>d. map_of ?ds (typeId ty) = Some d \<longrightarrow> typeData ty = data d"
    by blast
  have sa2: "storageArea ?c2 = Some st" using st(1)
    by (simp add: scheduleIdleFlush_def clearIdleTimer_def)
  then obtain c3 where p: "persistDrafts ?c2 = Inr c3"
    using st(3) by (simp add: persistDrafts_def)
  note f = persistDrafts_fields[OF p]
  have d2: "drafts ?c2 = ?ds" by (simp add: scheduleIdleFlush_def clearIdleTimer_def)
  have run: "restoreDrafts (Some remote) c = (Inr (Some merged), c3)"
    using p mg(1) by (simp add: restoreDrafts_def load Let_def)
  show ?thesis
  proof (cases "k \<in> typeId ` set ts")
    case True
    with m have mk: "map_of ?ds k = Some (normalizeEntry (dateNow c) k v)" by simp
    then have "?ds \<noteq> []" by auto
    then have "status ?c2 = Pending"
      by (simp add: hasPendingDrafts_def scheduleIdleFlush_def clearIdleTimer_def)
    with f have s3: "status c3 = Pending" by simp
    have d3: "map_of (drafts c3) k = Some (normalizeEntry (dateNow c) k v)"
      using f d2 mk by simp
    have "\<forall>ty \<in> set ts'. typeId ty = k \<longrightarrow> typeData ty = data v"
      using mg(4) mk by (auto simp: normalizeEntry_def)
    with True run s3 d3 mg(2,3) show ?thesis by (auto simp: normalizeEntry_def)
  next
    case False
    with m have "map_of ?ds k = None" by simp
    then have "k \<notin> fst ` set ?ds" by (simp add: map_of_eq_None_iff)
    with False run f d2 show ?thesis by auto
  qed
qed

theorem restore_merges_and_prunes_witness:
  "storageArea (createSyncController (Some exStored) 0) = Some exStored \<and>
   \<not> getFails exStored \<and> \<not> setFails exStored \<and>
   storedDrafts exStored =
     Some [(''type_1'', exEntry),
           (''type_2'', \<lparr>cvTypeId = ''type_2'', data = 8, localUpdatedAtMs = 2,
                         baseRemoteUpdatedAt = ''remote_a'', dirty = True\<rparr>)] \<and>
   cvTypes exRemote = Some [\<lparr>typeId = ''type_1'', typeData = 0\<rparr>] \<and>
   (\<exists>merged c'. restoreDrafts (Some exRemote) (createSyncController (Some exStored) 0) =
        (Inr (Some merged), c') \<and>
      status c' = Pending \<and>
      (\<exists>d. map_of (drafts c') ''type_1'' = Some d \<and> data d = 7) \<and>
      (\<exists>ts'. cvTypes merged = Some ts' \<and> map typeId ts' = [''type_1''] \<and>
             (\<forall>ty \<in> set ts'. typeId ty = ''type_1'' \<longrightarrow> typeData ty = 7)) \<and>
      ''type_2'' \<notin> fst ` set (drafts c'))"
proof -
  let ?c = "createSyncController (Some exStored) 0"
  let ?e2 = "\<lparr>cvTypeId = ''type_2'', data = 8::nat, localUpdatedAtMs = 2,
              baseRemoteUpdatedAt = ''remote_a'', dirty = True\<rparr>"
  let ?raw = "[(''type_1'', exEntry), (''type_2'', ?e2)]"
  have st: "storageArea ?c = Some exStored" "\<not> getFails exStored" "\<not> setFails exStored"
    by (simp_all add: createSyncController_def exStored_def)
  have raw: "storedDrafts exStored = Some ?raw" "distinct (map fst ?raw)"
    "\<forall>(k, v) \<in> set ?raw. k \<noteq> [] \<and> dirty v"
    by (simp_all add: exStored_def exEntry_def)
  have remote: "cvTypes exRemote = Some [\<lparr>typeId = ''type_1'', typeData = 0\<rparr>]"
    by (simp add: exRemote_def)
  have k1: "(''type_1'', exEntry) \<in> set ?raw" and k2: "(''type_2'', ?e2) \<in> set ?raw"
    by simp_all
  have in1: "''type_1'' \<in> typeId ` set [\<lparr>typeId = ''type_1'', typeData = 0::nat\<rparr>]" by simp
  have in2: "''type_2'' \<notin> typeId ` set [\<lparr>typeId = ''type_1'', typeData = 0::nat\<rparr>]" by simp
  have d7: "data exEntry = 7" "data ?e2 = 8" by (simp_all add: exEntry_def)
  have m1: "map typeId [\<lparr>typeId = ''type_1'', typeData = 0::nat\<rparr>] = [''type_1'']" by simp
  note a = restore_merges_and_prunes[OF st raw remote k1, unfolded if_P[OF in1] d7 m1]
  note b = restore_merges_and_prunes[OF st raw remote k2, unfolded if_not_P[OF in2]]
  from a obtain merged c' where r1: "restoreDrafts (Some exRemote) ?c = (Inr (Some merged), c')"
    "status c' = Pending" "\<exists>d. map_of (drafts c') ''type_1'' = Some d \<and> data d = 7"
    "\<exists>ts'. cvTypes merged = Some ts' \<and> map typeId ts' = [''type_1''] \<and>
             (\<forall>ty \<in> set ts'. typeId ty = ''type_1'' \<longrightarrow> typeData ty = 7)"
    apply -
    apply (erule exE)
    apply (erule exE)
    apply (elim conjE)
    apply (rule that)
    apply assumption+
    done
  from b obtain merged2 c2 where r2: "restoreDrafts (Some exRemote) ?c = (Inr (Some merged2), c2)"
    "''type_2'' \<notin> fst ` set (drafts c2)"
    apply -
    apply (erule exE)
    apply (erule exE)
    apply (elim conjE)
    apply (rule that)
    apply assumption+
    done
  from r1(1) r2(1) have "c2 = c'" by simp
  with r2(2) have r3: "''type_2'' \<notin> fst ` set (drafts c')" by simp
  from r1 r3 have "\<exists>merged c'. restoreDrafts (Some exRemote) ?c = (Inr (Some merged), c') \<and>
      status c' = Pending \<and>
      (\<exists>d. map_of (drafts c') ''type_1'' = Some d \<and> data d = 7) \<and>
      (\<exists>ts'. cvTypes merged = Some ts' \<and> map typeId ts' = [''type_1''] \<and>
             (\<forall>ty \<in> set ts'. typeId ty = ''type_1'' \<longrightarrow> typeData ty = 7)) \<and>
      ''type_2'' \<notin> fst ` set (drafts c')"
    by (intro exI[of _ merged] exI[of _ c'] conjI)
  with st raw(1) remote show ?thesis by (intro conjI)
qed

subsection \<open>One draft for each entity\<close>

text \<open>
  Claim C4. In every state of the controller the keys of the draft store are distinct:
  there is at most one draft for each entity identifier. An edit (with a non-empty
  identifier) leaves exactly the draft built from its payload, base version, timestamp
  and the dirty flag under the identifier; when the entity already had a draft the keys
  of the store are the same as before (the draft is replaced where it stood, no second
  one is queued), and the drafts of the other entities are untouched.
\<close>

theorem one_draft_per_entity:
  assumes "reachable c"
  shows "distinct (map fst (drafts c)) \<and>
     (tid \<noteq> [] \<longrightarrow>
        distinct (map fst (drafts (scheduleTypeSave tid d base now c))) \<and>
        map_of (drafts (scheduleTypeSave tid d base now c)) tid =
          Some \<lparr>cvTypeId = tid, data = d, localUpdatedAtMs = now,
                baseRemoteUpdatedAt = base, dirty = True\<rparr> \<and>
        (tid \<in> fst ` set (drafts c) \<longrightarrow>
           map fst (drafts (scheduleTypeSave tid d base now c)) = map fst (drafts c)) \<and>
        (\<forall>k. k \<noteq> tid \<longrightarrow>
           map_of (drafts (scheduleTypeSave tid d base now c)) k = map_of (drafts c) k))"
proof -
  from reachable_wf[OF assms] have d: "distinct (map fst (drafts c))"
    by (simp add: wfDrafts_def)
  from reachable_wf[OF reachable.scheduled[OF assms, of tid d base now]]
  have d': "distinct (map fst (drafts (scheduleTypeSave tid d base now c)))"
    by (simp add: wfDrafts_def)
  show ?thesis
    using d d' by (simp add: scheduleTypeSave_drafts update_conv' update_keys)
qed

theorem one_draft_per_entity_witness:
  "reachable exController \<and> ''type_1'' \<noteq> [] \<and> ''type_1'' \<in> fst ` set (drafts exController) \<and>
   distinct (map fst (drafts exController)) \<and>
   distinct (map fst (drafts (scheduleTypeSave ''type_1'' 9 ''remote_b'' 5 exController))) \<and>
   map_of (drafts (scheduleTypeSave ''type_1'' 9 ''remote_b'' 5 exController)) ''type_1'' =
     Some \<lparr>cvTypeId = ''type_1'', data = 9, localUpdatedAtMs = 5,
           baseRemoteUpdatedAt = ''remote_b'', dirty = True\<rparr> \<and>
   map fst (drafts (scheduleTypeSave ''type_1'' 9 ''remote_b'' 5 exController)) =
     map fst (drafts exController)"
proof -
  have r: "reachable exController"
    unfolding exController_def by (intro reachable.scheduled reachable.created)
  have k: "''type_1'' \<noteq> []" by simp
  have m: "''type_1'' \<in> fst ` set (drafts exController)"
    by (simp add: exController_def scheduleTypeSave_drafts createSyncController_def)
  from one_draft_per_entity[OF r, of "''type_1''" 9 "''remote_b''" 5] r k m
  show ?thesis by blast
qed

subsection \<open>Drafts survive a failed flush\<close>



subsection \<open>The trailing pass\<close>




end
